theory Spec2Isabelle
  imports Main
begin

section \<open>Text: Python strings as lists of code points\<close>

text \<open>
  A Python \<open>str\<close> is a sequence of Unicode code points. The source replaces three
  non-ASCII ampersands, so a string is modelled as the list of its code points.
  \<open>str\<close> turns an ASCII literal into that form.
\<close>

type_synonym ustr = "nat list"

definition str :: "string \<Rightarrow> ustr" where
  "str s = map of_char s"

text \<open>
  The character tables of the interpreter are not part of the repository. Beyond ASCII
  they are taken as a parameter: which code points are alphanumeric
  (\<open>str.isalnum\<close>, used by \<open>\w\<close> and \<open>\b\<close>), which are digits (\<open>str.isdigit\<close>),
  which are decimal digits and with what value (\<open>int()\<close>), and what a code point
  lower-cases to (\<open>str.lower\<close>). On ASCII the functions below are written out.
\<close>

record ucd =
  u_alnum :: "nat \<Rightarrow> bool"
  u_digit :: "nat \<Rightarrow> bool"
  u_decimal :: "nat \<Rightarrow> nat option"
  u_lower :: "nat \<Rightarrow> nat list"

text \<open>
  White space as \<open>str.strip()\<close> and the pattern class \<open>\s\<close> see it: the same fixed
  list of code points for both.
\<close>

definition is_space :: "nat \<Rightarrow> bool" where
  "is_space c \<longleftrightarrow>
     (9 \<le> c \<and> c \<le> 13) \<or> (28 \<le> c \<and> c \<le> 32) \<or> c = 133 \<or> c = 160 \<or> c = 5760 \<or>
     (8192 \<le> c \<and> c \<le> 8202) \<or> c = 8232 \<or> c = 8233 \<or> c = 8239 \<or> c = 8287 \<or> c = 12288"

definition is_word :: "ucd \<Rightarrow> nat \<Rightarrow> bool" where
  "is_word U c \<longleftrightarrow>
     (48 \<le> c \<and> c \<le> 57) \<or> (65 \<le> c \<and> c \<le> 90) \<or> (97 \<le> c \<and> c \<le> 122) \<or> c = 95 \<or>
     (128 \<le> c \<and> u_alnum U c)"

definition is_digit :: "ucd \<Rightarrow> nat \<Rightarrow> bool" where
  "is_digit U c \<longleftrightarrow> (48 \<le> c \<and> c \<le> 57) \<or> (128 \<le> c \<and> u_digit U c)"

definition decimal_value :: "ucd \<Rightarrow> nat \<Rightarrow> nat option" where
  "decimal_value U c =
     (if 48 \<le> c \<and> c \<le> 57 then Some (c - 48)
      else if 128 \<le> c then u_decimal U c else None)"

definition lower_cp :: "ucd \<Rightarrow> nat \<Rightarrow> nat list" where
  "lower_cp U c =
     (if 65 \<le> c \<and> c \<le> 90 then [c + 32]
      else if c < 128 then [c] else u_lower U c)"

definition py_lower :: "ucd \<Rightarrow> ustr \<Rightarrow> ustr" where
  "py_lower U s = concat (map (lower_cp U) s)"

definition py_strip :: "ustr \<Rightarrow> ustr" where
  "py_strip s = rev (dropWhile is_space (rev (dropWhile is_space s)))"

definition py_isdigit :: "ucd \<Rightarrow> ustr \<Rightarrow> bool" where
  "py_isdigit U s \<longleftrightarrow> s \<noteq> [] \<and> list_all (is_digit U) s"

text \<open>
  \<open>int(text)\<close> on a string of digits: every character has to be a decimal digit, or the
  call raises \<open>ValueError\<close> (\<open>None\<close> here). A digit that is not decimal, such as a
  superscript two, passes \<open>isdigit\<close> and fails \<open>int\<close>.
\<close>

definition py_int :: "ucd \<Rightarrow> ustr \<Rightarrow> int option" where
  "py_int U s =
     (if s \<noteq> [] \<and> list_all (\<lambda>c. decimal_value U c \<noteq> None) s
      then Some (foldl (\<lambda>a c. 10 * a + int (the (decimal_value U c))) 0 s)
      else None)"

definition replace_char :: "nat \<Rightarrow> nat \<Rightarrow> ustr \<Rightarrow> ustr" where
  "replace_char old new s = map (\<lambda>c. if c = old then new else c) s"

section \<open>The pattern of \<open>split_messages\<close> and \<open>re.split\<close>\<close>

text \<open>
  The pattern \<^verbatim>\<open>\s*(?:&|\band\b)\s*\<close> is kept as a term. The matcher is a
  backtracking one, as the interpreter's: a starred class first takes the longest run
  and gives characters back one at a time, an alternative tries its left branch first.
  The continuation \<open>k\<close> is the rest of the pattern; a match returns its end position.
\<close>

datatype cls = Space | Lit nat

datatype rx = Cls cls | Star cls | WordB | Cat rx rx | Alt rx rx

text \<open>
  The flag \<open>re.I\<close>: a literal of the pattern matches a character whose lower case it
  is. The pattern's literals are \<open>&\<close>, \<open>a\<close>, \<open>n\<close>, \<open>d\<close>; the only code points
  with one of them as lower case are themselves and \<open>A\<close>, \<open>N\<close>, \<open>D\<close>.
\<close>

definition lit_matches :: "nat \<Rightarrow> nat \<Rightarrow> bool" where
  "lit_matches p c \<longleftrightarrow> c = p \<or> (97 \<le> p \<and> p \<le> 122 \<and> c + 32 = p)"

fun cls_has :: "cls \<Rightarrow> nat \<Rightarrow> bool" where
  "cls_has Space c = is_space c"
| "cls_has (Lit p) c = lit_matches p c"

definition word_at :: "ucd \<Rightarrow> ustr \<Rightarrow> nat \<Rightarrow> bool" where
  "word_at U s i \<longleftrightarrow> i < length s \<and> is_word U (s ! i)"

definition word_boundary :: "ucd \<Rightarrow> ustr \<Rightarrow> nat \<Rightarrow> bool" where
  "word_boundary U s i \<longleftrightarrow> word_at U s i \<noteq> (0 < i \<and> word_at U s (i - 1))"

fun star_try :: "(nat \<Rightarrow> nat option) \<Rightarrow> nat \<Rightarrow> nat \<Rightarrow> nat option" where
  "star_try k i 0 = k i"
| "star_try k i (Suc n) =
     (case k (i + Suc n) of Some e \<Rightarrow> Some e | None \<Rightarrow> star_try k i n)"

fun rx_match :: "ucd \<Rightarrow> rx \<Rightarrow> ustr \<Rightarrow> nat \<Rightarrow> (nat \<Rightarrow> nat option) \<Rightarrow> nat option" where
  "rx_match U (Cls c) s i k =
     (if i < length s \<and> cls_has c (s ! i) then k (Suc i) else None)"
| "rx_match U (Star c) s i k =
     star_try k i (length (takeWhile (cls_has c) (drop i s)))"
| "rx_match U WordB s i k = (if word_boundary U s i then k i else None)"
| "rx_match U (Cat a b) s i k = rx_match U a s i (\<lambda>j. rx_match U b s j k)"
| "rx_match U (Alt a b) s i k =
     (case rx_match U a s i k of Some e \<Rightarrow> Some e | None \<Rightarrow> rx_match U b s i k)"

definition delimiter :: rx where
  "delimiter =
     Cat (Star Space)
       (Cat (Alt (Cls (Lit 38))
                 (Cat WordB (Cat (Cls (Lit 97)) (Cat (Cls (Lit 110)) (Cat (Cls (Lit 100)) WordB)))))
            (Star Space))"

text \<open>
  \<open>re_search\<close> is the leftmost match at or after \<open>pos\<close>; \<open>re_split\<close> cuts the
  string at each match and resumes the search at its end. A match of \<open>delimiter\<close> is
  never empty; the guard of \<open>re_split_from\<close> only says so.
\<close>

function re_search :: "ucd \<Rightarrow> rx \<Rightarrow> ustr \<Rightarrow> nat \<Rightarrow> (nat \<times> nat) option" where
  "re_search U r s pos =
     (if length s < pos then None
      else case rx_match U r s pos Some of
             Some e \<Rightarrow> Some (pos, e)
           | None \<Rightarrow> re_search U r s (Suc pos))"
  by pat_completeness auto
termination
  by (relation "measure (\<lambda>(U, r, s, pos). Suc (length s) - pos)") auto

definition slice :: "ustr \<Rightarrow> nat \<Rightarrow> nat \<Rightarrow> ustr" where
  "slice s i j = take (j - i) (drop i s)"

function re_split_from :: "ucd \<Rightarrow> rx \<Rightarrow> ustr \<Rightarrow> nat \<Rightarrow> ustr list" where
  "re_split_from U r s lst =
     (case re_search U r s lst of
        None \<Rightarrow> [drop lst s]
      | Some (i, e) \<Rightarrow>
          if lst < e \<and> e \<le> length s
          then slice s lst i # re_split_from U r s e
          else [drop lst s])"
  by pat_completeness auto
termination
  by (relation "measure (\<lambda>(U, r, s, lst). length s - lst)") auto

definition re_split :: "ucd \<Rightarrow> rx \<Rightarrow> ustr \<Rightarrow> ustr list" where
  "re_split U r s = re_split_from U r s 0"

definition split_messages :: "ucd \<Rightarrow> ustr \<Rightarrow> ustr list" where
  "split_messages U raw =
     (let raw = replace_char 8523 38 (replace_char 65286 38 (replace_char 65120 38 raw));
          parts = re_split U delimiter raw
      in map py_strip (filter (\<lambda>p. py_strip p \<noteq> []) parts))"

section \<open>The global state\<close>

text \<open>
  \<open>STATE\<close> is one dictionary with a fixed set of keys: a record. The wizard step is
  \<open>None\<close> or one of five strings. The task handle holds the coroutine of
  \<open>dry_run_engine\<close>: not yet started, suspended at \<open>asyncio.sleep(0)\<close> with its
  locals \<open>msgs\<close>, \<open>total\<close> (here \<open>tot\<close>) and \<open>i\<close>, or returned.
\<close>

datatype step = Session | Mode | GcPick | Payload | Count

datatype coro = Pending | Suspended "ustr list" int nat | Finished

record state =
  logged_in :: bool
  session_label :: "ustr option"
  step :: "step option"
  mode :: "ustr option"
  targets :: "ustr list"
  messages :: "ustr list"
  send_count :: int
  running :: bool
  sent :: int
  started_at :: "int option"
  task :: "coro option"
  mock_groups :: "ustr list"

definition STATE :: state where
  "STATE =
     \<lparr>logged_in = False, session_label = None, step = None, mode = None, targets = [],
      messages = [], send_count = 0, running = False, sent = 0, started_at = None,
      task = None, mock_groups = []\<rparr>"

definition OWNER_TG_ID :: int where
  "OWNER_TG_ID = 7510461579"

definition is_owner :: "int \<Rightarrow> bool" where
  "is_owner uid \<longleftrightarrow> uid = OWNER_TG_ID"

definition uptime :: "int \<Rightarrow> state \<Rightarrow> int" where
  "uptime now st =
     (case started_at st of
        None \<Rightarrow> 0
      | Some t \<Rightarrow> if t = 0 then 0 else now - t)"

definition build_mock_groups :: "ustr list" where
  "build_mock_groups =
     [str ''AAKASH KUTIYA'' @ [12312] @ str ''BETICHOD'' @ [12313, 9882, 32, 128162],
      str ''Cudai Lounge '' @ [128293],
      str ''Market Signals '' @ [128200],
      str ''Crypto Talk '' @ [128142],
      str ''Gaming Squad '' @ [127918],
      str ''Misfits Boxing '' @ [129354],
      str ''Design Critique '' @ [9997, 65039],
      str ''Music Drops '' @ [127925],
      str ''Startup Founders '' @ [128640],
      str ''Late-Night Chat '' @ [127769]]"

section \<open>Inbound events, replies and the environment\<close>

text \<open>
  An update may lack a sender (a channel post) or a message (an edited message); the
  attribute access of the source then raises. A message has a text body or an attached
  file. The attachment is given by its contents as the codec decodes them (UTF-8,
  undecodable bytes dropped); the translation of line endings done by a text-mode read
  is written out below.
\<close>

record message =
  msg_text :: "ustr option"
  document :: "ustr option"

record update =
  effective_user :: "int option"
  message :: "message option"

text \<open>
  What the handlers take from outside: the clock, the name \<open>tempfile.mktemp\<close> hands
  out, and how the transfer of an attachment goes. The calls that can fail are
  \<open>get_file\<close>, \<open>download_to_drive\<close> and the read of the staged file.
\<close>

datatype io = IoOk | GetFileFails | DownloadFails | ReadFails

record env =
  now_ts :: int
  mktemp :: nat
  io :: io

datatype exn = AttributeError | ValueError | TransferError | OSError

text \<open>
  The wording and layout of a reply are cosmetic; a reply is modelled by which message
  it is and the values it shows.
\<close>

datatype reply =
    Welcome
  | LoginFirst
  | ModePrompt
  | Halted
  | Dashboard bool "ustr option" nat nat int int int bool
  | HelpText
  | LoggedIn ustr
  | GroupList "(nat \<times> ustr) list"
  | InvalidSelection
  | PayloadPrompt
  | NoMessages
  | CountPrompt
  | EngineLive int bool

datatype outcome = Reply reply | Silent | Raised exn

definition reply_text :: "update \<Rightarrow> reply \<Rightarrow> outcome" where
  "reply_text upd r = (case message upd of None \<Rightarrow> Raised AttributeError | Some m \<Rightarrow> Reply r)"

text \<open>
  \<open>update.message.text or ""\<close>, and the same stripped, as the router reads it.
\<close>

definition text_or_empty :: "message \<Rightarrow> ustr" where
  "text_or_empty m = (case msg_text m of None \<Rightarrow> [] | Some t \<Rightarrow> t)"

definition text_of :: "message \<Rightarrow> ustr" where
  "text_of m = py_strip (text_or_empty m)"

section \<open>Reading the payload\<close>

fun universal_newlines :: "ustr \<Rightarrow> ustr" where
  "universal_newlines [] = []"
| "universal_newlines [c] = [if c = 13 then 10 else c]"
| "universal_newlines (c # d # cs) =
     (if c = 13 \<and> d = 10 then 10 # universal_newlines cs
      else if c = 13 then 10 # universal_newlines (d # cs)
      else c # universal_newlines (d # cs))"

text \<open>
  The file system is a map from names to contents. \<open>read_messages\<close> returns it
  updated, with the messages or the exception that left the function.
\<close>

type_synonym fs = "nat \<rightharpoonup> ustr"

definition read_messages :: "ucd \<Rightarrow> env \<Rightarrow> message \<Rightarrow> fs \<Rightarrow> fs \<times> (exn + ustr list)" where
  "read_messages U e m files =
     (case document m of
        Some contents \<Rightarrow>
          if io e = GetFileFails then (files, Inl TransferError)
          else
            let tmp = mktemp e in
            if io e = DownloadFails then (files, Inl TransferError)
            else
              let files1 = files(tmp \<mapsto> contents) in
              if io e = ReadFails then (files1, Inl OSError)
              else
                let raw = universal_newlines contents;
                    files2 = files1(tmp := None)
                in (files2, Inr (split_messages U raw))
      | None \<Rightarrow>
          (files, Inr (split_messages U (text_or_empty m))))"

section \<open>The dry-run engine\<close>

text \<open>
  The coroutine runs between two suspensions without interruption. \<open>engine_loop\<close> is
  one pass from the test of the \<open>while\<close> to the next \<open>await\<close> or to the return;
  \<open>dry_run_engine\<close> is the start of the coroutine, up to its first suspension;
  \<open>resume\<close> is what the event loop does when it gives the task its turn. A task that
  was cancelled is no longer referred to by the state and never runs again.
\<close>

definition engine_loop :: "ustr list \<Rightarrow> int \<Rightarrow> nat \<Rightarrow> state \<Rightarrow> state" where
  "engine_loop msgs tot i st =
     (if \<not> running st then st\<lparr>task := Some Finished\<rparr>
      else
        let st1 = st\<lparr>sent := sent st + 1\<rparr>;
            i1 = (i + 1) mod length msgs
        in if tot > 0 \<and> sent st1 \<ge> tot
           then st1\<lparr>running := False, task := Some Finished\<rparr>
           else st1\<lparr>task := Some (Suspended msgs tot i1)\<rparr>)"

definition dry_run_engine :: "int \<Rightarrow> state \<Rightarrow> state" where
  "dry_run_engine now st =
     (let st1 = st\<lparr>started_at := Some now, sent := 0\<rparr>;
          msgs = messages st1;
          tot = send_count st1
      in if msgs = [] then st1\<lparr>running := False, task := Some Finished\<rparr>
         else engine_loop msgs tot 0 st1)"

definition resume :: "int \<Rightarrow> state \<Rightarrow> state" where
  "resume now st =
     (case task st of
        Some Pending \<Rightarrow> dry_run_engine now st
      | Some (Suspended msgs tot i) \<Rightarrow> engine_loop msgs tot i st
      | _ \<Rightarrow> st)"

text \<open>
  The engine left to itself: the task is resumed until it has returned. The loop need
  not end, so the run is bounded by the number of turns it may take; \<open>None\<close> says the
  task has not returned within them.
\<close>

fun run_alone :: "nat \<Rightarrow> int \<Rightarrow> state \<Rightarrow> state option" where
  "run_alone 0 now st = None"
| "run_alone (Suc n) now st =
     (let st1 = resume now st
      in if task st1 = Some Finished then Some st1 else run_alone n now st1)"

text \<open>The state after the event loop has given the task \<open>k\<close> turns.\<close>

fun turns :: "nat \<Rightarrow> int \<Rightarrow> state \<Rightarrow> state" where
  "turns 0 now st = st"
| "turns (Suc k) now st = resume now (turns k now st)"

section \<open>Commands\<close>

definition start_cmd :: "update \<Rightarrow> state \<Rightarrow> state \<times> outcome" where
  "start_cmd upd st =
     (case effective_user upd of
        None \<Rightarrow> (st, Raised AttributeError)
      | Some uid \<Rightarrow>
          if \<not> is_owner uid then (st, Silent)
          else
            let st1 = st\<lparr>logged_in := False, session_label := None, step := Some Session\<rparr>
            in (st1, reply_text upd Welcome))"

definition attack_cmd :: "update \<Rightarrow> state \<Rightarrow> state \<times> outcome" where
  "attack_cmd upd st =
     (case effective_user upd of
        None \<Rightarrow> (st, Raised AttributeError)
      | Some uid \<Rightarrow>
          if \<not> is_owner uid then (st, Silent)
          else if \<not> logged_in st then (st, reply_text upd LoginFirst)
          else (st\<lparr>step := Some Mode\<rparr>, reply_text upd ModePrompt))"

definition stop_cmd :: "update \<Rightarrow> state \<Rightarrow> state \<times> outcome" where
  "stop_cmd upd st =
     (case effective_user upd of
        None \<Rightarrow> (st, Raised AttributeError)
      | Some uid \<Rightarrow>
          if \<not> is_owner uid then (st, Silent)
          else
            let st1 = st\<lparr>running := False\<rparr>;
                st2 = (case task st1 of None \<Rightarrow> st1 | Some t \<Rightarrow> st1\<lparr>task := None\<rparr>)
            in (st2, reply_text upd Halted))"

definition status_cmd :: "env \<Rightarrow> update \<Rightarrow> state \<Rightarrow> state \<times> outcome" where
  "status_cmd e upd st =
     (case effective_user upd of
        None \<Rightarrow> (st, Raised AttributeError)
      | Some uid \<Rightarrow>
          if \<not> is_owner uid then (st, Silent)
          else
            (st, reply_text upd
                   (Dashboard (logged_in st) (mode st) (length (targets st))
                      (length (messages st)) (send_count st) (sent st)
                      (uptime (now_ts e) st) (running st))))"

definition help_cmd :: "update \<Rightarrow> state \<Rightarrow> state \<times> outcome" where
  "help_cmd upd st =
     (case effective_user upd of
        None \<Rightarrow> (st, Raised AttributeError)
      | Some uid \<Rightarrow>
          if \<not> is_owner uid then (st, Silent)
          else (st, reply_text upd HelpText))"

section \<open>The text router\<close>

type_synonym world = "state \<times> fs"

definition text_router :: "ucd \<Rightarrow> env \<Rightarrow> update \<Rightarrow> world \<Rightarrow> world \<times> outcome" where
  "text_router U e upd w =
     (let st = fst w; files = snd w in
      case effective_user upd of
        None \<Rightarrow> (w, Raised AttributeError)
      | Some uid \<Rightarrow>
          if \<not> is_owner uid then (w, Silent)
          else
            (case message upd of
              None \<Rightarrow> (w, Raised AttributeError)
            | Some m \<Rightarrow>
                let txt = text_of m;
                    stp = step st
                in
                if stp = Some Session then
                  let label = (if txt = [] then str ''demo-session'' else txt);
                      st1 = st\<lparr>logged_in := True, session_label := Some label, step := None\<rparr>
                  in ((st1, files), Reply (LoggedIn label))
                else if stp = Some Mode \<and> py_lower U txt = str ''gc'' then
                  let groups = build_mock_groups;
                      st1 = st\<lparr>mode := Some (str ''GC''), mock_groups := groups,
                               step := Some GcPick\<rparr>
                  in ((st1, files), Reply (GroupList (zip [1..<Suc (length groups)] groups)))
                else if stp = Some GcPick \<and> py_isdigit U txt then
                  (case py_int U txt of
                     None \<Rightarrow> (w, Raised ValueError)
                   | Some n \<Rightarrow>
                       let idx = n - 1 in
                       if idx < 0 \<or> idx \<ge> int (length (mock_groups st))
                       then (w, Reply InvalidSelection)
                       else
                         ((st\<lparr>targets := [mock_groups st ! nat idx], step := Some Payload\<rparr>,
                           files),
                          Reply PayloadPrompt))
                else if stp = Some Payload then
                  (case read_messages U e m files of
                     (files1, Inl x) \<Rightarrow> ((st, files1), Raised x)
                   | (files1, Inr msgs) \<Rightarrow>
                       if msgs = [] then ((st, files1), Reply NoMessages)
                       else ((st\<lparr>messages := msgs, step := Some Count\<rparr>, files1),
                             Reply CountPrompt))
                else if stp = Some Count \<and> py_isdigit U txt then
                  (case py_int U txt of
                     None \<Rightarrow> (w, Raised ValueError)
                   | Some n \<Rightarrow>
                       ((st\<lparr>send_count := n, running := True, step := None,
                            task := Some Pending\<rparr>,
                         files),
                        Reply (EngineLive n (n = 0))))
                else (w, Silent)))"

section \<open>Dispatch\<close>

text \<open>
  The application routes the five commands to their handlers and every other update to
  \<open>text_router\<close>. Between two events the event loop may give the engine its turn.
\<close>

datatype command = Start | Attack | Stop | Status | Help

datatype event = Command command update | Other update

definition on_state :: "(state \<Rightarrow> state \<times> outcome) \<Rightarrow> world \<Rightarrow> world \<times> outcome" where
  "on_state h w = (case h (fst w) of (st1, r) \<Rightarrow> ((st1, snd w), r))"

fun handle :: "ucd \<Rightarrow> env \<Rightarrow> event \<Rightarrow> world \<Rightarrow> world \<times> outcome" where
  "handle U e (Command Start upd) w = on_state (start_cmd upd) w"
| "handle U e (Command Attack upd) w = on_state (attack_cmd upd) w"
| "handle U e (Command Stop upd) w = on_state (stop_cmd upd) w"
| "handle U e (Command Status upd) w = on_state (status_cmd e upd) w"
| "handle U e (Command Help upd) w = on_state (help_cmd upd) w"
| "handle U e (Other upd) w = text_router U e upd w"

fun sender :: "event \<Rightarrow> int option" where
  "sender (Command c upd) = effective_user upd"
| "sender (Other upd) = effective_user upd"

section \<open>The split in the words of the specification\<close>

text \<open>
  The specification describes the split without a pattern: the three ampersand variants
  become \<open>&\<close>; the text is cut at every \<open>&\<close> and at every whole word \<open>and\<close> in
  any letter case; every piece is trimmed and the empty ones are dropped. White space
  around a separator belongs to no piece; since every piece is trimmed, the trimming
  takes it. \<open>spec_pieces\<close> scans the text once, from \<open>start\<close>, the beginning of the
  current piece, with \<open>i\<close> the position under inspection.
\<close>

definition normalize_amp :: "ustr \<Rightarrow> ustr" where
  "normalize_amp s = map (\<lambda>c. if c = 65120 \<or> c = 65286 \<or> c = 8523 then 38 else c) s"

definition letter_at :: "ustr \<Rightarrow> nat \<Rightarrow> nat \<Rightarrow> bool" where
  "letter_at s i p \<longleftrightarrow> i < length s \<and> (s ! i = p \<or> s ! i + 32 = p)"

definition and_word_at :: "ucd \<Rightarrow> ustr \<Rightarrow> nat \<Rightarrow> bool" where
  "and_word_at U s i \<longleftrightarrow>
     letter_at s i 97 \<and> letter_at s (i + 1) 110 \<and> letter_at s (i + 2) 100 \<and>
     \<not> (0 < i \<and> word_at U s (i - 1)) \<and> \<not> word_at U s (i + 3)"

function spec_pieces :: "ucd \<Rightarrow> ustr \<Rightarrow> nat \<Rightarrow> nat \<Rightarrow> ustr list" where
  "spec_pieces U s start i =
     (if length s \<le> i then [slice s start (length s)]
      else if s ! i = 38 then slice s start i # spec_pieces U s (i + 1) (i + 1)
      else if and_word_at U s i then slice s start i # spec_pieces U s (i + 3) (i + 3)
      else spec_pieces U s start (i + 1))"
  by pat_completeness auto
termination
  by (relation "measure (\<lambda>(U, s, start, i). length s - i)") auto

definition spec_split_messages :: "ucd \<Rightarrow> ustr \<Rightarrow> ustr list" where
  "spec_split_messages U raw =
     filter (\<lambda>p. p \<noteq> []) (map py_strip (spec_pieces U (normalize_amp raw) 0 0))"

text \<open>
  For the proofs: the length of the separator that begins at a position, and the length
  of the run of white space that begins at a position.
\<close>

definition sep_len :: "ucd \<Rightarrow> ustr \<Rightarrow> nat \<Rightarrow> nat option" where
  "sep_len U s i =
     (if i < length s \<and> s ! i = 38 then Some 1
      else if and_word_at U s i then Some 3
      else None)"

definition space_run :: "ustr \<Rightarrow> nat \<Rightarrow> nat" where
  "space_run s i = length (takeWhile is_space (drop i s))"

section \<open>Vocabulary of the properties\<close>

text \<open>
  \<open>follows_order\<close> is the movement of the step that the specification describes: it
  stays, is reset to none, or advances by one position of the fixed order (from none,
  into the session or the mode step). \<open>allowed_move\<close> is the movement the handlers
  are shown to make.
\<close>

fun step_pos :: "step \<Rightarrow> nat" where
  "step_pos Session = 0"
| "step_pos Mode = 1"
| "step_pos GcPick = 2"
| "step_pos Payload = 3"
| "step_pos Count = 4"

definition follows_order :: "step option \<Rightarrow> step option \<Rightarrow> bool" where
  "follows_order s s' \<longleftrightarrow>
     s' = s \<or> s' = None \<or>
     (case (s, s') of
        (None, Some b) \<Rightarrow> b = Session \<or> b = Mode
      | (Some a, Some b) \<Rightarrow> step_pos b = Suc (step_pos a)
      | _ \<Rightarrow> False)"

definition router_move :: "step option \<Rightarrow> step option \<Rightarrow> bool" where
  "router_move s s' \<longleftrightarrow>
     s' = s \<or>
     (s = Some Session \<and> s' = None) \<or>
     (s = Some Mode \<and> s' = Some GcPick) \<or>
     (s = Some GcPick \<and> s' = Some Payload) \<or>
     (s = Some Payload \<and> s' = Some Count) \<or>
     (s = Some Count \<and> s' = None)"

fun allowed_move :: "event \<Rightarrow> step option \<Rightarrow> step option \<Rightarrow> bool" where
  "allowed_move (Command Start upd) s s' \<longleftrightarrow> s' = s \<or> s' = Some Session"
| "allowed_move (Command Attack upd) s s' \<longleftrightarrow> s' = s \<or> s' = Some Mode"
| "allowed_move (Command c upd) s s' \<longleftrightarrow> s' = s"
| "allowed_move (Other upd) s s' \<longleftrightarrow> router_move s s'"

fun replied :: "outcome \<Rightarrow> bool" where
  "replied (Reply r) = True"
| "replied Silent = False"
| "replied (Raised x) = False"

text \<open>Two results of the router agree on the state and on the reply.\<close>

definition same_effect :: "world \<times> outcome \<Rightarrow> world \<times> outcome \<Rightarrow> bool" where
  "same_effect r1 r2 \<longleftrightarrow> fst (fst r1) = fst (fst r2) \<and> snd r1 = snd r2"

section \<open>Sample inputs\<close>

text \<open>
  Concrete values for the examples below: character tables with nothing beyond ASCII,
  an environment in which every transfer succeeds and one in which the read of the
  staged file fails, updates sent by the owner and by a stranger, and the states of a
  wizard run.
\<close>

definition ascii_only :: ucd where
  "ascii_only =
     \<lparr>u_alnum = (\<lambda>c. False), u_digit = (\<lambda>c. False), u_decimal = (\<lambda>c. None),
      u_lower = (\<lambda>c. [c])\<rparr>"

definition env_ok :: env where
  "env_ok = \<lparr>now_ts = 1700000000, mktemp = 7, io = IoOk\<rparr>"

definition env_read_fails :: env where
  "env_read_fails = \<lparr>now_ts = 1700000000, mktemp = 7, io = ReadFails\<rparr>"

definition says :: "int \<Rightarrow> ustr \<Rightarrow> update" where
  "says uid s =
     \<lparr>effective_user = Some uid,
      message = Some \<lparr>msg_text = Some s, document = None\<rparr>\<rparr>"

definition uploads :: "int \<Rightarrow> ustr \<Rightarrow> update" where
  "uploads uid contents =
     \<lparr>effective_user = Some uid,
      message = Some \<lparr>msg_text = None, document = Some contents\<rparr>\<rparr>"

definition at_step :: "step \<Rightarrow> state" where
  "at_step s =
     STATE\<lparr>logged_in := True, session_label := Some (str ''demo''), step := Some s,
           mode := Some (str ''GC''), mock_groups := build_mock_groups\<rparr>"

definition configured :: state where
  "configured =
     (at_step Count)\<lparr>targets := [build_mock_groups ! 0], messages := [str ''x'', str ''y'']\<rparr>"

section \<open>Evaluation of the samples\<close>

lemmas sample_defs = says_def uploads_def at_step_def configured_def STATE_def env_ok_def
  env_read_fails_def ascii_only_def OWNER_TG_ID_def str_def

lemmas text_defs = text_of_def text_or_empty_def py_strip_def is_space_def py_isdigit_def
  py_int_def is_digit_def decimal_value_def py_lower_def lower_cp_def

lemmas split_eval = split_messages_def re_split_def delimiter_def replace_char_def
  lit_matches_def word_boundary_def word_at_def is_word_def slice_def

section \<open>The owner gate\<close>

text \<open>
  C3. Whatever the event (one of the five commands, a text or a file), the step and the
  state: an event whose sender is not the owner gets no reply and leaves the state and
  the file system as they were.
\<close>

theorem non_owner_ignored:
  "sender ev = Some uid \<Longrightarrow> uid \<noteq> OWNER_TG_ID \<Longrightarrow> handle U e ev w = (w, Silent)"
proof (cases ev)
  case (Command c upd)
  assume "sender ev = Some uid" "uid \<noteq> OWNER_TG_ID"
  with Command show ?thesis
    by (cases c) (simp_all add: on_state_def start_cmd_def attack_cmd_def stop_cmd_def
        status_cmd_def help_cmd_def is_owner_def)
next
  case (Other upd)
  assume "sender ev = Some uid" "uid \<noteq> OWNER_TG_ID"
  with Other show ?thesis
    by (simp add: text_router_def is_owner_def)
qed

theorem non_owner_ignored_witness:
  "sender (Other (says 42 (str ''GC''))) = Some 42 \<and> 42 \<noteq> OWNER_TG_ID \<and>
   handle ascii_only env_ok (Other (says 42 (str ''GC''))) (at_step Mode, Map.empty)
     = ((at_step Mode, Map.empty), Silent)"
  using non_owner_ignored [of "Other (says 42 (str ''GC''))" 42 ascii_only env_ok
      "(at_step Mode, Map.empty)"]
  by (simp add: says_def OWNER_TG_ID_def)

section \<open>The start command\<close>

text \<open>
  C4, as the specification has it: the start command puts every field back to its
  initial value and the step to the session step. It does not: a state with the engine
  running and five messages counted keeps both.
\<close>

theorem start_keeps_run_fields:
  "fst (fst (handle ascii_only env_ok (Command Start (says OWNER_TG_ID (str ''/start'')))
      (configured\<lparr>running := True, sent := 5\<rparr>, Map.empty)))
   \<noteq> STATE\<lparr>step := Some Session\<rparr>"
  by (simp add: on_state_def start_cmd_def is_owner_def sample_defs)

text \<open>
  C4, amended. The start command of the owner clears the login flag and the session
  label and sets the step to the session step; every other field (mode, targets,
  messages, send count, running, sent, start time, task, catalogue) keeps its value.
\<close>

theorem start_cmd_effect:
  assumes "effective_user upd = Some OWNER_TG_ID"
  shows "fst (handle U e (Command Start upd) (st, files)) =
           (st\<lparr>logged_in := False, session_label := None, step := Some Session\<rparr>, files)"
  using assms by (simp add: on_state_def start_cmd_def is_owner_def)

theorem start_cmd_effect_witness:
  "effective_user (says OWNER_TG_ID (str ''/start'')) = Some OWNER_TG_ID \<and>
   fst (handle ascii_only env_ok (Command Start (says OWNER_TG_ID (str ''/start'')))
          (configured\<lparr>running := True, sent := 5\<rparr>, Map.empty)) =
     (configured\<lparr>running := True, sent := 5, logged_in := False, session_label := None,
        step := Some Session\<rparr>, Map.empty)"
  using start_cmd_effect [of "says OWNER_TG_ID (str ''/start'')" ascii_only env_ok
      "configured\<lparr>running := True, sent := 5\<rparr>" Map.empty]
  by (simp add: says_def)

section \<open>The selection of a target\<close>

text \<open>
  C7. At the target step, a number from the owner that is larger than the catalogue
  (\<open>11\<close> for the ten demo groups) is answered with the invalid-selection reply, and
  the step, every other field and the file system stay as they were.
\<close>

theorem pick_out_of_range:
  assumes "effective_user upd = Some OWNER_TG_ID" and "message upd = Some m"
    and "step st = Some GcPick"
    and "py_isdigit U (text_of m)" and "py_int U (text_of m) = Some n"
    and "int (length (mock_groups st)) < n"
  shows "text_router U e upd (st, files) = ((st, files), Reply InvalidSelection)"
  using assms by (simp add: text_router_def is_owner_def Let_def)

theorem pick_out_of_range_witness:
  "effective_user (says OWNER_TG_ID (str ''11'')) = Some OWNER_TG_ID \<and>
   message (says OWNER_TG_ID (str ''11'')) =
     Some \<lparr>msg_text = Some (str ''11''), document = None\<rparr> \<and>
   step (at_step GcPick) = Some GcPick \<and>
   py_isdigit ascii_only (text_of \<lparr>msg_text = Some (str ''11''), document = None\<rparr>) \<and>
   py_int ascii_only (text_of \<lparr>msg_text = Some (str ''11''), document = None\<rparr>) = Some 11 \<and>
   length (mock_groups (at_step GcPick)) = 10 \<and>
   text_router ascii_only env_ok (says OWNER_TG_ID (str ''11'')) (at_step GcPick, Map.empty)
     = ((at_step GcPick, Map.empty), Reply InvalidSelection)"
  using pick_out_of_range [of "says OWNER_TG_ID (str ''11'')"
      "\<lparr>msg_text = Some (str ''11''), document = None\<rparr>"
      "at_step GcPick" ascii_only 11 env_ok Map.empty]
  by (simp add: sample_defs text_defs build_mock_groups_def)

text \<open>
  C10. The numbering is from one. The input \<open>0\<close> is a digit string with value 0, so
  its index is \<open>-1\<close> and the reply is invalid selection, with nothing changed. A digit
  string with value \<open>n\<close> selects a target exactly when \<open>1 \<le> n\<close> and \<open>n\<close> is at
  most the size of the catalogue; the target is then entry \<open>n - 1\<close>.
\<close>

theorem zero_is_invalid:
  assumes "effective_user upd = Some OWNER_TG_ID" and "message upd = Some m"
    and "step st = Some GcPick"
  shows "(text_of m = str ''0'' \<longrightarrow>
            py_isdigit U (text_of m) \<and> py_int U (text_of m) = Some 0 \<and>
            text_router U e upd (st, files) = ((st, files), Reply InvalidSelection)) \<and>
         (py_isdigit U (text_of m) \<and> py_int U (text_of m) = Some n \<longrightarrow>
            (if 1 \<le> n \<and> n \<le> int (length (mock_groups st))
             then text_router U e upd (st, files) =
                    ((st\<lparr>targets := [mock_groups st ! nat (n - 1)], step := Some Payload\<rparr>,
                      files),
                     Reply PayloadPrompt)
             else text_router U e upd (st, files) = ((st, files), Reply InvalidSelection)))"
  using assms
  by (auto simp add: text_router_def is_owner_def Let_def str_def py_isdigit_def py_int_def
      is_digit_def decimal_value_def)

theorem zero_is_invalid_witness:
  "effective_user (says OWNER_TG_ID (str ''0'')) = Some OWNER_TG_ID \<and>
   message (says OWNER_TG_ID (str ''0'')) =
     Some \<lparr>msg_text = Some (str ''0''), document = None\<rparr> \<and>
   step (at_step GcPick) = Some GcPick \<and>
   text_of \<lparr>msg_text = Some (str ''0''), document = None\<rparr> = str ''0'' \<and>
   text_router ascii_only env_ok (says OWNER_TG_ID (str ''0'')) (at_step GcPick, Map.empty)
     = ((at_step GcPick, Map.empty), Reply InvalidSelection)"
  using zero_is_invalid [of "says OWNER_TG_ID (str ''0'')"
      "\<lparr>msg_text = Some (str ''0''), document = None\<rparr>"
      "at_step GcPick" ascii_only env_ok Map.empty 0]
  by (simp add: sample_defs text_defs)

section \<open>Input that no branch accepts\<close>

text \<open>
  C5, as the specification has it: input that is malformed for the step gets an error
  reply. At the mode step the owner's text \<open>hello\<close> gets no reply at all.
\<close>

theorem unmatched_gets_no_reply:
  "\<not> replied (snd (text_router ascii_only env_ok (says OWNER_TG_ID (str ''hello''))
      (at_step Mode, Map.empty)))"
  by (simp add: text_router_def is_owner_def sample_defs text_defs)

text \<open>
  C5, amended. Text of the owner that the step does not accept (other than \<open>GC\<close> in
  any case at the mode step, not a digit string at the target step or at the count
  step) is ignored: no reply, and the step, the rest of the state and the file system
  unchanged.
\<close>

theorem unmatched_input_ignored:
  assumes "effective_user upd = Some OWNER_TG_ID" and "message upd = Some m"
    and "(step st = Some Mode \<and> py_lower U (text_of m) \<noteq> str ''gc'') \<or>
         (step st = Some GcPick \<and> \<not> py_isdigit U (text_of m)) \<or>
         (step st = Some Count \<and> \<not> py_isdigit U (text_of m))"
  shows "text_router U e upd (st, files) = ((st, files), Silent)"
  using assms by (auto simp add: text_router_def is_owner_def Let_def)

theorem unmatched_input_ignored_witness:
  "effective_user (says OWNER_TG_ID (str ''hello'')) = Some OWNER_TG_ID \<and>
   message (says OWNER_TG_ID (str ''hello'')) =
     Some \<lparr>msg_text = Some (str ''hello''), document = None\<rparr> \<and>
   step (at_step Mode) = Some Mode \<and>
   py_lower ascii_only (text_of \<lparr>msg_text = Some (str ''hello''), document = None\<rparr>)
     \<noteq> str ''gc'' \<and>
   text_router ascii_only env_ok (says OWNER_TG_ID (str ''hello'')) (at_step Mode, Map.empty)
     = ((at_step Mode, Map.empty), Silent)"
  using unmatched_input_ignored [of "says OWNER_TG_ID (str ''hello'')"
      "\<lparr>msg_text = Some (str ''hello''), document = None\<rparr>"
      "at_step Mode" ascii_only env_ok Map.empty]
  by (simp add: sample_defs text_defs)

section \<open>The movement of the step\<close>

lemma step_resume: "step (resume now st) = step st"
  by (simp add: resume_def dry_run_engine_def engine_loop_def Let_def
      split: option.splits coro.splits)

lemma step_command:
  "allowed_move (Command c upd) (step st)
     (step (fst (fst (handle U e (Command c upd) (st, files)))))"
  by (cases c)
    (simp_all add: on_state_def start_cmd_def attack_cmd_def stop_cmd_def status_cmd_def
      help_cmd_def Let_def split: option.splits)

lemma step_router:
  "router_move (step st) (step (fst (fst (text_router U e upd (st, files)))))"
  by (simp add: text_router_def router_move_def Let_def
      split: option.splits prod.splits sum.splits)

text \<open>
  C6, as the specification has it: no event moves the step backwards to an intermediate
  step. The attack command of a logged-in owner, sent at the count step, puts the step
  back to the mode step.
\<close>

theorem attack_moves_back:
  "step configured = Some Count \<and>
   step (fst (fst (handle ascii_only env_ok (Command Attack (says OWNER_TG_ID (str ''/attack'')))
      (configured, Map.empty)))) = Some Mode \<and>
   \<not> follows_order (Some Count) (Some Mode)"
  by (simp add: on_state_def attack_cmd_def is_owner_def follows_order_def sample_defs)

text \<open>
  C6, amended. A text or file event leaves the step or moves it one position forward:
  session to none, mode to target, target to payload, payload to count, count to none.
  The start command leaves it or sets it to the session step, the attack command leaves
  it or sets it to the mode step, from any step and so also backwards; stop, status and
  help leave it, and so does a turn of the engine.
\<close>

theorem step_moves:
  "allowed_move ev (step st) (step (fst (fst (handle U e ev (st, files))))) \<and>
   step (resume now st) = step st"
proof (cases ev)
  case (Command c upd)
  then show ?thesis using step_command [of c upd st U e files] step_resume by simp
next
  case (Other upd)
  then show ?thesis using step_router [of st U e upd files] step_resume by simp
qed

theorem step_moves_witness:
  "allowed_move (Command Attack (says OWNER_TG_ID (str ''/attack''))) (Some Count) (Some Mode) \<and>
   step (fst (fst (handle ascii_only env_ok (Command Attack (says OWNER_TG_ID (str ''/attack'')))
      (configured, Map.empty)))) = Some Mode \<and>
   step (resume 0 configured) = Some Count"
  using step_moves [of "Command Attack (says OWNER_TG_ID (str ''/attack''))" configured
      ascii_only env_ok Map.empty 0]
  by (simp add: on_state_def attack_cmd_def is_owner_def sample_defs)

section \<open>The counter loop\<close>

text \<open>
  The engine left alone returns on a given turn exactly when it has not returned on an
  earlier one; \<open>run_alone\<close> is read off the sequence of turns.
\<close>

lemma turns_first: "turns (Suc k) now st = turns k now (resume now st)"
  by (induction k) simp_all

lemma run_alone_None:
  "(\<And>j. 1 \<le> j \<Longrightarrow> j \<le> n \<Longrightarrow> task (turns j now st) \<noteq> Some Finished)
   \<Longrightarrow> run_alone n now st = None"
proof (induction n arbitrary: st)
  case 0
  show ?case by simp
next
  case (Suc n)
  have first: "task (resume now st) \<noteq> Some Finished"
    using Suc.prems [of 1] by simp
  have rest: "run_alone n now (resume now st) = None"
  proof (rule Suc.IH)
    fix j assume "1 \<le> j" "j \<le> n"
    then show "task (turns j now (resume now st)) \<noteq> Some Finished"
      using Suc.prems [of "Suc j"] by (simp add: turns_first del: turns.simps)
  qed
  from first rest show ?case by (simp add: Let_def)
qed

lemma run_alone_Some:
  "task (turns (Suc k) now st) = Some Finished \<Longrightarrow>
   (\<And>j. 1 \<le> j \<Longrightarrow> j \<le> k \<Longrightarrow> task (turns j now st) \<noteq> Some Finished) \<Longrightarrow>
   k < n \<Longrightarrow> run_alone n now st = Some (turns (Suc k) now st)"
proof (induction k arbitrary: st n)
  case 0
  then obtain n' where "n = Suc n'" by (cases n) auto
  with 0 show ?case by (simp add: Let_def)
next
  case (Suc k)
  then obtain n' where n: "n = Suc n'" and kn: "k < n'" by (cases n) auto
  have first: "task (resume now st) \<noteq> Some Finished"
    using Suc.prems(2) [of 1] by simp
  have "run_alone n' now (resume now st) = Some (turns (Suc k) now (resume now st))"
  proof (rule Suc.IH)
    show "task (turns (Suc k) now (resume now st)) = Some Finished"
      using Suc.prems(1) by (simp only: turns_first)
  next
    fix j assume "1 \<le> j" "j \<le> k"
    then show "task (turns j now (resume now st)) \<noteq> Some Finished"
      using Suc.prems(2) [of "Suc j"] by (simp add: turns_first del: turns.simps)
  next
    show "k < n'" by (rule kn)
  qed
  with first n show ?case by (simp add: Let_def turns_first del: turns.simps)
qed

lemma engine_turns:
  assumes "task st = Some Pending" and "running st" and "messages st \<noteq> []"
  shows "let st' = turns (Suc k) now st in
         if 0 < send_count st \<and> send_count st \<le> int (Suc k)
         then sent st' = send_count st \<and> \<not> running st' \<and> task st' = Some Finished
         else sent st' = int (Suc k) \<and> running st' \<and>
              task st' = Some (Suspended (messages st) (send_count st) (Suc k mod length (messages st)))"
proof (induction k)
  case 0
  from assms show ?case
    by (simp add: resume_def dry_run_engine_def engine_loop_def Let_def)
next
  case (Suc k)
  let ?p = "turns (Suc k) now st"
  have next_turn: "turns (Suc (Suc k)) now st = resume now ?p" by simp
  show ?case
  proof (cases "0 < send_count st \<and> send_count st \<le> int (Suc k)")
    case True
    with Suc have "sent ?p = send_count st \<and> \<not> running ?p \<and> task ?p = Some Finished"
      by (simp add: Let_def)
    then show ?thesis using True
      by (simp add: next_turn resume_def Let_def del: turns.simps)
  next
    case False
    with Suc have p: "sent ?p = int (Suc k)" "running ?p"
      "task ?p = Some (Suspended (messages st) (send_count st) (Suc k mod length (messages st)))"
      by (simp_all add: Let_def)
    show ?thesis using p False
      by (auto simp add: next_turn resume_def engine_loop_def Let_def mod_Suc simp del: turns.simps)
  qed
qed

lemma py_int_nonneg: "py_int U s = Some n \<Longrightarrow> 0 \<le> n"
proof -
  have "0 \<le> a \<Longrightarrow> 0 \<le> foldl (\<lambda>a c. 10 * a + int (the (decimal_value U c))) a s" for a
    by (induction s arbitrary: a) simp_all
  from this [of 0] show "py_int U s = Some n \<Longrightarrow> 0 \<le> n"
    by (auto simp add: py_int_def split: if_splits)
qed

lemma limited_run:
  assumes "task st = Some Pending" and "running st" and "messages st \<noteq> []"
    and "0 < send_count st"
  shows "run_alone fuel now st =
           (if fuel < nat (send_count st) then None
            else Some (turns (nat (send_count st)) now st))"
    and "sent (turns (nat (send_count st)) now st) = send_count st"
    and "\<not> running (turns (nat (send_count st)) now st)"
proof -
  obtain k where k: "nat (send_count st) = Suc k"
    using assms(4) by (cases "nat (send_count st)") auto
  have at: "sent (turns (Suc k) now st) = send_count st \<and> \<not> running (turns (Suc k) now st) \<and>
      task (turns (Suc k) now st) = Some Finished"
    using engine_turns [OF assms(1-3), of k now] assms(4) k by (simp add: Let_def)
  have before: "task (turns j now st) \<noteq> Some Finished" if "1 \<le> j" "j \<le> k" for j
  proof -
    from that obtain j' where j': "j = Suc j'" by (cases j) auto
    with that k have "\<not> (0 < send_count st \<and> send_count st \<le> int (Suc j'))" by linarith
    then show ?thesis
      using engine_turns [OF assms(1-3), of j' now] j' by (simp add: Let_def)
  qed
  show "run_alone fuel now st =
           (if fuel < nat (send_count st) then None
            else Some (turns (nat (send_count st)) now st))"
  proof (cases "fuel < nat (send_count st)")
    case True
    have "run_alone fuel now st = None"
      by (rule run_alone_None) (use True k before in auto)
    with True show ?thesis by simp
  next
    case False
    then have "k < fuel" using k by simp
    have "run_alone fuel now st = Some (turns (Suc k) now st)"
      using at before \<open>k < fuel\<close> by (intro run_alone_Some) auto
    with False k show ?thesis by simp
  qed
  from at k show "sent (turns (nat (send_count st)) now st) = send_count st"
    and "\<not> running (turns (nat (send_count st)) now st)" by simp_all
qed

lemma unlimited_run:
  assumes "task st = Some Pending" and "running st" and "messages st \<noteq> []"
    and "send_count st = 0"
  shows "run_alone fuel now st = None"
    and "sent (turns (Suc k) now st) = int (Suc k)"
    and "running (turns (Suc k) now st)"
proof -
  have at: "sent (turns (Suc j) now st) = int (Suc j) \<and> running (turns (Suc j) now st) \<and>
      task (turns (Suc j) now st) \<noteq> Some Finished" for j
    using engine_turns [OF assms(1-3), of j now] assms(4) by (simp add: Let_def)
  show "run_alone fuel now st = None"
  proof (rule run_alone_None)
    fix j :: nat assume "1 \<le> j"
    then obtain j' where "j = Suc j'" by (cases j) auto
    with at [of j'] show "task (turns j now st) \<noteq> Some Finished" by simp
  qed
  from at [of k] show "sent (turns (Suc k) now st) = int (Suc k)"
    and "running (turns (Suc k) now st)" by simp_all
qed

lemma turns_idle: "task st = None \<Longrightarrow> turns j now st = st"
  by (induction j) (simp_all add: resume_def)

lemma stop_halts:
  assumes "effective_user upd = Some OWNER_TG_ID"
  shows "\<not> running (fst (stop_cmd upd st))"
    and "sent (fst (stop_cmd upd st)) = sent st"
    and "turns j now (fst (stop_cmd upd st)) = fst (stop_cmd upd st)"
proof -
  have t: "task (fst (stop_cmd upd st)) = None"
    using assms by (simp add: stop_cmd_def is_owner_def Let_def split: option.splits)
  show "\<not> running (fst (stop_cmd upd st))" and "sent (fst (stop_cmd upd st)) = sent st"
    using assms by (simp_all add: stop_cmd_def is_owner_def Let_def split: option.splits)
  from t show "turns j now (fst (stop_cmd upd st)) = fst (stop_cmd upd st)"
    by (rule turns_idle)
qed

lemma count_step:
  assumes "effective_user upd = Some OWNER_TG_ID" and "message upd = Some m"
    and "step st = Some Count"
    and "py_isdigit U (text_of m)" and "py_int U (text_of m) = Some n"
  shows "text_router U e upd (st, files) =
     ((st\<lparr>send_count := n, running := True, step := None, task := Some Pending\<rparr>, files),
      Reply (EngineLive n (n = 0)))"
  using assms by (simp add: text_router_def is_owner_def Let_def)

text \<open>
  C1. The owner completes the wizard with a digit string of value \<open>n\<close> at the count
  step, the message pool not empty. The router sets the limit to \<open>n\<close> and the running
  flag. If \<open>0 < n\<close>, the loop left alone returns after exactly \<open>n\<close> turns (not
  within fewer), with the counter equal to \<open>n\<close> and the running flag cleared. If
  \<open>n = 0\<close>, the loop left alone never returns, however many turns it is given, and
  after \<open>k + 1\<close> turns the counter is \<open>k + 1\<close> with the flag still set; a stop
  command of the owner after any number of turns clears the flag and the counter moves
  no further.
\<close>

theorem counter_loop:
  assumes "effective_user upd = Some OWNER_TG_ID" and "message upd = Some m"
    and "step st = Some Count"
    and "py_isdigit U (text_of m)" and "py_int U (text_of m) = Some n"
    and "messages st \<noteq> []"
  shows "let st1 = fst (fst (text_router U e upd (st, files))) in
           running st1 \<and> send_count st1 = n \<and> 0 \<le> n \<and>
           (0 < n \<longrightarrow>
              (\<forall>fuel. run_alone fuel now st1 =
                 (if fuel < nat n then None else Some (turns (nat n) now st1))) \<and>
              sent (turns (nat n) now st1) = n \<and> \<not> running (turns (nat n) now st1)) \<and>
           (n = 0 \<longrightarrow>
              (\<forall>fuel. run_alone fuel now st1 = None) \<and>
              (\<forall>k. sent (turns (Suc k) now st1) = int (Suc k) \<and> running (turns (Suc k) now st1)) \<and>
              (\<forall>k stop. effective_user stop = Some OWNER_TG_ID \<longrightarrow>
                 (let st2 = fst (stop_cmd stop (turns k now st1)) in
                    \<not> running st2 \<and> sent st2 = sent (turns k now st1) \<and>
                    (\<forall>j. turns j now st2 = st2))))"
proof -
  define st1 where "st1 = st\<lparr>send_count := n, running := True, step := None, task := Some Pending\<rparr>"
  have r: "fst (fst (text_router U e upd (st, files))) = st1"
    using count_step [OF assms(1-5)] by (simp add: st1_def)
  have pre: "task st1 = Some Pending" "running st1" "messages st1 \<noteq> []" "send_count st1 = n"
    using assms(6) by (simp_all add: st1_def)
  have "0 \<le> n" using assms(5) by (rule py_int_nonneg)
  moreover have "0 < n \<longrightarrow>
      (\<forall>fuel. run_alone fuel now st1 =
         (if fuel < nat n then None else Some (turns (nat n) now st1))) \<and>
      sent (turns (nat n) now st1) = n \<and> \<not> running (turns (nat n) now st1)"
    using limited_run [OF pre(1-3)] pre(4) by simp
  moreover have "n = 0 \<longrightarrow>
      (\<forall>fuel. run_alone fuel now st1 = None) \<and>
      (\<forall>k. sent (turns (Suc k) now st1) = int (Suc k) \<and> running (turns (Suc k) now st1))"
    using unlimited_run [OF pre(1-3)] pre(4) by simp
  moreover have "\<forall>k stop. effective_user stop = Some OWNER_TG_ID \<longrightarrow>
      (let st2 = fst (stop_cmd stop (turns k now st1)) in
         \<not> running st2 \<and> sent st2 = sent (turns k now st1) \<and> (\<forall>j. turns j now st2 = st2))"
    using stop_halts by (simp add: Let_def)
  ultimately show ?thesis using pre(2,4) by (simp add: r Let_def)
qed

theorem counter_loop_witness:
  "effective_user (says OWNER_TG_ID (str ''3'')) = Some OWNER_TG_ID \<and>
   message (says OWNER_TG_ID (str ''3'')) = Some \<lparr>msg_text = Some (str ''3''), document = None\<rparr> \<and>
   step configured = Some Count \<and>
   py_isdigit ascii_only (text_of \<lparr>msg_text = Some (str ''3''), document = None\<rparr>) \<and>
   py_int ascii_only (text_of \<lparr>msg_text = Some (str ''3''), document = None\<rparr>) = Some 3 \<and>
   messages configured \<noteq> [] \<and>
   map_option sent (run_alone 3 1700000000
      (fst (fst (text_router ascii_only env_ok (says OWNER_TG_ID (str ''3'')) (configured, Map.empty)))))
     = Some 3 \<and>
   run_alone 2 1700000000
      (fst (fst (text_router ascii_only env_ok (says OWNER_TG_ID (str ''3'')) (configured, Map.empty))))
     = None"
  using counter_loop [of "says OWNER_TG_ID (str ''3'')"
      "\<lparr>msg_text = Some (str ''3''), document = None\<rparr>" configured ascii_only 3 env_ok
      Map.empty 1700000000]
  by (simp add: sample_defs text_defs Let_def)

section \<open>A file or a text as payload\<close>

lemma universal_newlines_id: "13 \<notin> set s \<Longrightarrow> universal_newlines s = s"
  by (induction s rule: universal_newlines.induct) auto

text \<open>
  C8, as the specification has it: for every string, a file with these contents gives
  the message pool of the same string typed as text. A text-mode read turns a carriage
  return into a line feed; the typed text keeps it. For the three characters \<open>x\<close>,
  carriage return, \<open>y\<close> the two pools differ.
\<close>

theorem upload_differs_from_text:
  "messages (fst (fst (text_router ascii_only env_ok (uploads OWNER_TG_ID [120, 13, 121])
      (at_step Payload, Map.empty)))) = [[120, 10, 121]] \<and>
   messages (fst (fst (text_router ascii_only env_ok (says OWNER_TG_ID [120, 13, 121])
      (at_step Payload, Map.empty)))) = [[120, 13, 121]] \<and>
   \<not> same_effect
      (text_router ascii_only env_ok (uploads OWNER_TG_ID [120, 13, 121])
        (at_step Payload, Map.empty))
      (text_router ascii_only env_ok (says OWNER_TG_ID [120, 13, 121])
        (at_step Payload, Map.empty))"
  by (simp add: same_effect_def text_router_def read_messages_def is_owner_def sample_defs
      text_defs split_eval)

text \<open>
  C8, amended. At the payload step, when the transfer succeeds, a file with contents
  \<open>s\<close> has the effect on the state and the reply of the text \<open>s\<close> with its line
  endings translated, for every \<open>s\<close>; so it has the effect of the text \<open>s\<close> itself
  whenever \<open>s\<close> holds no carriage return, as for \<open>x & y\<close>.
\<close>

theorem upload_as_text:
  assumes "step st = Some Payload" and "io e = IoOk"
  shows "same_effect (text_router U e (uploads OWNER_TG_ID s) (st, files))
           (text_router U e (says OWNER_TG_ID (universal_newlines s)) (st, files)) \<and>
         (13 \<notin> set s \<longrightarrow>
            same_effect (text_router U e (uploads OWNER_TG_ID s) (st, files))
              (text_router U e (says OWNER_TG_ID s) (st, files)))"
proof -
  have "same_effect (text_router U e (uploads OWNER_TG_ID s) (st, files))
           (text_router U e (says OWNER_TG_ID (universal_newlines s)) (st, files))"
    using assms
    by (simp add: same_effect_def text_router_def is_owner_def says_def uploads_def Let_def
        read_messages_def text_or_empty_def)
  then show ?thesis using universal_newlines_id [of s] by auto
qed

theorem upload_as_text_witness:
  "step (at_step Payload) = Some Payload \<and> io env_ok = IoOk \<and> 13 \<notin> set (str ''x & y'') \<and>
   same_effect (text_router ascii_only env_ok (uploads OWNER_TG_ID (str ''x & y'')) (at_step Payload, Map.empty))
      (text_router ascii_only env_ok (says OWNER_TG_ID (str ''x & y'')) (at_step Payload, Map.empty)) \<and>
   messages (fst (fst (text_router ascii_only env_ok (uploads OWNER_TG_ID (str ''x & y''))
      (at_step Payload, Map.empty)))) = [str ''x'', str ''y'']"
  using upload_as_text [of "at_step Payload" env_ok ascii_only "str ''x & y''" Map.empty]
  by (simp add: text_router_def read_messages_def is_owner_def sample_defs text_defs split_eval)

section \<open>The staged file\<close>

text \<open>
  C9. The temporary file is to be removed whatever the outcome of the read. When the
  read of the staged file fails, the exception leaves \<open>read_messages\<close> before
  \<open>os.remove\<close>: the file stays. When the read succeeds the file is removed.
\<close>

theorem staged_file_left_behind:
  "text_router ascii_only env_read_fails (uploads OWNER_TG_ID (str ''x & y''))
     (at_step Payload, Map.empty)
   = ((at_step Payload, [7 \<mapsto> str ''x & y'']), Raised OSError)"
  by (simp add: text_router_def read_messages_def is_owner_def sample_defs text_defs)

lemma staged_file_removed:
  "snd (fst (text_router ascii_only env_ok (uploads OWNER_TG_ID (str ''x & y''))
     (at_step Payload, Map.empty))) = Map.empty"
  by (simp add: text_router_def read_messages_def is_owner_def sample_defs text_defs split_eval)


section \<open>The split of the payload\<close>

text \<open>
  The recursive equations of the search and of the two splits are applied by hand in
  this section.
\<close>

declare re_search.simps [simp del] re_split_from.simps [simp del] spec_pieces.simps [simp del]

lemma space_run_within: "i \<le> length s \<Longrightarrow> i + space_run s i \<le> length s"
  using length_takeWhile_le [of is_space "drop i s"] by (simp add: space_run_def)

lemma space_run_spaces: "m < space_run s i \<Longrightarrow> is_space (s ! (i + m))"
proof -
  assume m: "m < space_run s i"
  then have "takeWhile is_space (drop i s) ! m \<in> set (takeWhile is_space (drop i s))"
    by (simp add: space_run_def)
  then have "is_space (takeWhile is_space (drop i s) ! m)"
    by (rule set_takeWhileD [THEN conjunct2])
  moreover have "takeWhile is_space (drop i s) ! m = drop i s ! m"
    using m by (simp add: space_run_def takeWhile_nth)
  moreover have "m < length (drop i s)"
    using m length_takeWhile_le [of is_space "drop i s"] by (simp add: space_run_def)
  ultimately show ?thesis by simp
qed

lemma cls_space: "cls_has Space = is_space"
  by (rule ext) simp

lemma star_try_all: "star_try Some i n = Some (i + n)"
  by (cases n) simp_all

lemma star_try_last: "(\<And>m. m < n \<Longrightarrow> k (i + m) = None) \<Longrightarrow> star_try k i n = k (i + n)"
proof (induction n)
  case 0
  show ?case by simp
next
  case (Suc n)
  show ?case
  proof (cases "k (i + Suc n)")
    case None
    moreover have "star_try k i n = k (i + n)" using Suc by simp
    moreover have "k (i + n) = None" using Suc.prems [of n] by simp
    ultimately show ?thesis by simp
  next
    case (Some e)
    then show ?thesis by simp
  qed
qed


lemma sep_len_bound: "sep_len U s j = Some l \<Longrightarrow> 0 < l \<and> j + l \<le> length s"
  by (auto simp add: sep_len_def and_word_at_def letter_at_def split: if_splits)

lemma sep_len_space: "is_space (s ! j) \<Longrightarrow> sep_len U s j = None"
  by (auto simp add: sep_len_def and_word_at_def letter_at_def is_space_def)

text \<open>The pattern after its leading white space: the separator and the white space behind it.\<close>

lemma match_core:
  "rx_match U
     (Cat (Alt (Cls (Lit 38))
               (Cat WordB (Cat (Cls (Lit 97)) (Cat (Cls (Lit 110)) (Cat (Cls (Lit 100)) WordB)))))
          (Star Space)) s j Some =
   (case sep_len U s j of
      None \<Rightarrow> None
    | Some l \<Rightarrow> Some (j + l + space_run s (j + l)))"
proof (cases "j < length s \<and> s ! j = 38")
  case True
  then show ?thesis
    by (simp add: sep_len_def lit_matches_def star_try_all space_run_def cls_space)
next
  case amp: False
  show ?thesis
  proof (cases "and_word_at U s j")
    case True
    then have l: "j < length s" "Suc j < length s" "Suc (Suc j) < length s"
      "s ! j = 97 \<or> s ! j + 32 = 97" "s ! Suc j = 110 \<or> s ! Suc j + 32 = 110"
      "s ! Suc (Suc j) = 100 \<or> s ! Suc (Suc j) + 32 = 100"
      and b: "\<not> (0 < j \<and> word_at U s (j - 1))" "\<not> word_at U s (j + 3)"
      by (simp_all add: and_word_at_def letter_at_def)
    have w: "word_at U s j" "word_at U s (Suc (Suc j))"
      using l by (auto simp add: word_at_def is_word_def)
    have wb: "word_boundary U s j" "word_boundary U s (Suc (Suc (Suc j)))"
      using w b by (simp_all add: word_boundary_def numeral_3_eq_3)
    from amp True l wb show ?thesis
      by (auto simp add: sep_len_def lit_matches_def star_try_all space_run_def numeral_3_eq_3 cls_space)
  next
    case False
    have "\<not> (word_boundary U s j \<and> j < length s \<and> lit_matches 97 (s ! j) \<and>
         Suc j < length s \<and> lit_matches 110 (s ! Suc j) \<and>
         Suc (Suc j) < length s \<and> lit_matches 100 (s ! Suc (Suc j)) \<and>
         word_boundary U s (Suc (Suc (Suc j))))"
    proof
      assume a: "word_boundary U s j \<and> j < length s \<and> lit_matches 97 (s ! j) \<and>
         Suc j < length s \<and> lit_matches 110 (s ! Suc j) \<and>
         Suc (Suc j) < length s \<and> lit_matches 100 (s ! Suc (Suc j)) \<and>
         word_boundary U s (Suc (Suc (Suc j)))"
      then have w: "word_at U s j" "word_at U s (Suc (Suc j))"
        by (auto simp add: word_at_def is_word_def lit_matches_def)
      with a have "\<not> (0 < j \<and> word_at U s (j - 1))" "\<not> word_at U s (j + 3)"
        by (auto simp add: word_boundary_def numeral_3_eq_3)
      with a have "and_word_at U s j"
        by (auto simp add: and_word_at_def letter_at_def lit_matches_def)
      with False show False by simp
    qed
    with amp False show ?thesis
      by (auto simp add: sep_len_def lit_matches_def)
  qed
qed

lemma match_delimiter:
  "rx_match U delimiter s i Some =
     (case sep_len U s (i + space_run s i) of
        None \<Rightarrow> None
      | Some l \<Rightarrow> Some (i + space_run s i + l + space_run s (i + space_run s i + l)))"
proof -
  let ?core = "Cat (Alt (Cls (Lit 38))
               (Cat WordB (Cat (Cls (Lit 97)) (Cat (Cls (Lit 110)) (Cat (Cls (Lit 100)) WordB)))))
          (Star Space)"
  let ?k = "\<lambda>j. rx_match U ?core s j Some"
  have given_back: "?k (i + m) = None" if "m < space_run s i" for m
  proof -
    have "is_space (s ! (i + m))" using that by (rule space_run_spaces)
    then have "sep_len U s (i + m) = None" by (rule sep_len_space)
    then show ?thesis by (simp only: match_core option.case)
  qed
  have "rx_match U delimiter s i Some = star_try ?k i (space_run s i)"
    by (simp add: delimiter_def space_run_def cls_space)
  also have "\<dots> = ?k (i + space_run s i)"
    using given_back by (rule star_try_last)
  finally show ?thesis by (simp only: match_core)
qed


lemma search_step:
  "\<not> length s < pos \<Longrightarrow> rx_match U delimiter s pos Some = None \<Longrightarrow>
   re_search U delimiter s pos = re_search U delimiter s (Suc pos)"
  by (subst re_search.simps) simp

lemma search_hit:
  "\<not> length s < pos \<Longrightarrow> rx_match U delimiter s pos Some = Some e \<Longrightarrow>
   re_search U delimiter s pos = Some (pos, e)"
  by (subst re_search.simps) simp

lemma search_end: "length s < pos \<Longrightarrow> re_search U delimiter s pos = None"
  by (subst re_search.simps) simp

lemma search_none:
  "(\<And>p. pos \<le> p \<Longrightarrow> sep_len U s p = None) \<Longrightarrow> re_search U delimiter s pos = None"
proof (induction n \<equiv> "Suc (length s) - pos" arbitrary: pos)
  case 0
  then have "length s < pos" by simp
  then show ?case by (rule search_end)
next
  case (Suc n)
  then have inside: "\<not> length s < pos" by simp
  have m: "rx_match U delimiter s pos Some = None"
    using Suc.prems [of "pos + space_run s pos"] by (simp add: match_delimiter)
  have "re_search U delimiter s (Suc pos) = None"
  proof (rule Suc.hyps(1))
    show "n = Suc (length s) - Suc pos" using Suc.hyps(2) by simp
  next
    fix p assume "Suc pos \<le> p"
    then show "sep_len U s p = None" using Suc.prems [of p] by simp
  qed
  with search_step [OF inside m] show ?case by simp
qed

lemma search_some:
  "pos \<le> j \<Longrightarrow> sep_len U s j = Some l \<Longrightarrow>
   (\<And>p. pos \<le> p \<Longrightarrow> p < j \<Longrightarrow> sep_len U s p = None) \<Longrightarrow>
   \<exists>i. re_search U delimiter s pos = Some (i, j + l + space_run s (j + l)) \<and>
       pos \<le> i \<and> i \<le> j \<and> (\<forall>p. i \<le> p \<and> p < j \<longrightarrow> is_space (s ! p))"
proof (induction n \<equiv> "j - pos" arbitrary: pos)
  case 0
  then have eq: "pos = j" by simp
  have jlen: "j < length s" using sep_len_bound [OF "0.prems"(2)] by simp
  have "\<not> is_space (s ! j)"
    using "0.prems"(2) sep_len_space [of s j U] by auto
  then have "space_run s j = 0"
    using jlen by (simp add: space_run_def takeWhile_eq_Nil_iff hd_drop_conv_nth)
  then have "rx_match U delimiter s j Some = Some (j + l + space_run s (j + l))"
    using "0.prems"(2) by (simp add: match_delimiter)
  then have "re_search U delimiter s j = Some (j, j + l + space_run s (j + l))"
    using jlen by (intro search_hit) simp_all
  with eq show ?case by auto
next
  case (Suc n)
  then have lt: "pos < j" by simp
  have jlen: "j < length s" using sep_len_bound [OF Suc.prems(2)] by simp
  then have inside: "\<not> length s < pos" using lt by simp
  let ?q = "pos + space_run s pos"
  have not_beyond: "?q \<le> j"
  proof (rule ccontr)
    assume "\<not> ?q \<le> j"
    then have "j - pos < space_run s pos" using lt by simp
    then have "is_space (s ! (pos + (j - pos)))" by (rule space_run_spaces)
    then have "sep_len U s j = None" using lt by (simp add: sep_len_space)
    with Suc.prems(2) show False by simp
  qed
  show ?case
  proof (cases "?q = j")
    case True
    then have "rx_match U delimiter s pos Some = Some (j + l + space_run s (j + l))"
      using Suc.prems(2) by (simp add: match_delimiter)
    then have "re_search U delimiter s pos = Some (pos, j + l + space_run s (j + l))"
      using inside by (intro search_hit)
    moreover have "is_space (s ! p)" if "pos \<le> p" "p < j" for p
    proof -
      from that True have "p - pos < space_run s pos" by simp
      then have "is_space (s ! (pos + (p - pos)))" by (rule space_run_spaces)
      with that show ?thesis by simp
    qed
    ultimately show ?thesis using lt by auto
  next
    case False
    with not_beyond have before: "?q < j" by simp
    then have "sep_len U s ?q = None" using Suc.prems(3) by simp
    then have m: "rx_match U delimiter s pos Some = None"
      by (simp add: match_delimiter)
    have "\<exists>i. re_search U delimiter s (Suc pos) = Some (i, j + l + space_run s (j + l)) \<and>
       Suc pos \<le> i \<and> i \<le> j \<and> (\<forall>p. i \<le> p \<and> p < j \<longrightarrow> is_space (s ! p))"
    proof (rule Suc.hyps(1))
      show "n = j - Suc pos" using Suc.hyps(2) by simp
      show "Suc pos \<le> j" using lt by simp
      show "sep_len U s j = Some l" by (rule Suc.prems(2))
    next
      fix p assume "Suc pos \<le> p" "p < j"
      then show "sep_len U s p = None" using Suc.prems(3) [of p] by simp
    qed
    then obtain i where i: "re_search U delimiter s (Suc pos) = Some (i, j + l + space_run s (j + l))"
      "Suc pos \<le> i" "i \<le> j" "\<forall>p. i \<le> p \<and> p < j \<longrightarrow> is_space (s ! p)" by blast
    have "re_search U delimiter s pos = Some (i, j + l + space_run s (j + l))"
      using search_step [OF inside m] i(1) by simp
    with i show ?thesis by auto
  qed
qed

lemma pieces_end: "length s \<le> i \<Longrightarrow> spec_pieces U s start i = [slice s start (length s)]"
  by (subst spec_pieces.simps) simp

lemma pieces_skip:
  "i < length s \<Longrightarrow> sep_len U s i = None \<Longrightarrow>
   spec_pieces U s start i = spec_pieces U s start (Suc i)"
  by (subst spec_pieces.simps) (auto simp add: sep_len_def split: if_splits)

lemma pieces_cut:
  "sep_len U s i = Some l \<Longrightarrow>
   spec_pieces U s start i = slice s start i # spec_pieces U s (i + l) (i + l)"
  by (subst spec_pieces.simps)
    (auto simp add: sep_len_def and_word_at_def letter_at_def split: if_splits)

lemma pieces_none:
  "(\<And>p. i \<le> p \<Longrightarrow> sep_len U s p = None) \<Longrightarrow>
   spec_pieces U s start i = [slice s start (length s)]"
proof (induction n \<equiv> "length s - i" arbitrary: i)
  case 0
  then show ?case by (simp add: pieces_end)
next
  case (Suc n)
  then have inside: "i < length s" by simp
  have "spec_pieces U s start (Suc i) = [slice s start (length s)]"
  proof (rule Suc.hyps(1))
    show "n = length s - Suc i" using Suc.hyps(2) by simp
  next
    fix p assume "Suc i \<le> p"
    then show "sep_len U s p = None" using Suc.prems [of p] by simp
  qed
  with pieces_skip [OF inside Suc.prems [of i]] show ?case by simp
qed

lemma pieces_some:
  "i \<le> j \<Longrightarrow> sep_len U s j = Some l \<Longrightarrow>
   (\<And>p. i \<le> p \<Longrightarrow> p < j \<Longrightarrow> sep_len U s p = None) \<Longrightarrow>
   spec_pieces U s start i = slice s start j # spec_pieces U s (j + l) (j + l)"
proof (induction n \<equiv> "j - i" arbitrary: i)
  case 0
  then have "i = j" by simp
  with pieces_cut [OF "0.prems"(2)] show ?case by simp
next
  case (Suc n)
  then have lt: "i < j" by simp
  have jlen: "j < length s" using sep_len_bound [OF Suc.prems(2)] by simp
  with lt have inside: "i < length s" by simp
  have here: "sep_len U s i = None" using Suc.prems(3) [of i] lt by simp
  have "spec_pieces U s start (Suc i) = slice s start j # spec_pieces U s (j + l) (j + l)"
  proof (rule Suc.hyps(1))
    show "n = j - Suc i" using Suc.hyps(2) by simp
    show "Suc i \<le> j" using lt by simp
    show "sep_len U s j = Some l" by (rule Suc.prems(2))
  next
    fix p assume "Suc i \<le> p" "p < j"
    then show "sep_len U s p = None" using Suc.prems(3) [of p] by simp
  qed
  with pieces_skip [OF inside here] show ?case by simp
qed

lemma strip_pad:
  assumes "\<forall>c\<in>set a. is_space c" and "\<forall>c\<in>set b. is_space c"
  shows "py_strip (a @ x @ b) = py_strip x"
proof -
  have front: "dropWhile is_space (a @ x @ b) = dropWhile is_space (x @ b)"
    using assms(1) by (simp add: dropWhile_append2)
  have behind: "dropWhile is_space (rev (dropWhile is_space (x @ b))) =
              dropWhile is_space (rev (dropWhile is_space x))"
  proof (cases "\<forall>c\<in>set x. is_space c")
    case True
    then have e1: "dropWhile is_space (x @ b) = []"
      using assms(2) by (auto simp add: dropWhile_eq_Nil_conv)
    from True have e2: "dropWhile is_space x = []"
      by (simp add: dropWhile_eq_Nil_conv)
    show ?thesis by (simp only: e1 e2)
  next
    case False
    then have e: "dropWhile is_space (x @ b) = dropWhile is_space x @ b"
      by (auto simp add: dropWhile_append1)
    have "dropWhile is_space (rev b @ rev (dropWhile is_space x)) =
          dropWhile is_space (rev (dropWhile is_space x))"
      by (rule dropWhile_append2) (use assms(2) in simp)
    then show ?thesis by (simp only: e rev_append)
  qed
  show ?thesis by (simp only: py_strip_def front behind)
qed

lemma slice_spaces:
  "j \<le> length s \<Longrightarrow> (\<forall>p. i \<le> p \<and> p < j \<longrightarrow> is_space (s ! p)) \<Longrightarrow>
   \<forall>c\<in>set (slice s i j). is_space c"
  by (auto simp add: slice_def in_set_conv_nth)

lemma slice_split:
  "i \<le> j \<Longrightarrow> j \<le> k \<Longrightarrow> slice s i k = slice s i j @ slice s j k"
proof -
  assume a: "i \<le> j" "j \<le> k"
  have "take (k - i) (drop i s) = take (j - i) (drop i s) @ take (k - j) (drop (j - i) (drop i s))"
    using a take_add [of "j - i" "k - j" "drop i s"] by simp
  then show ?thesis using a by (simp add: slice_def)
qed

lemma slice_to_end: "slice s i (length s) = drop i s"
  by (simp add: slice_def)


lemma split_from_none:
  "re_search U delimiter s lst = None \<Longrightarrow> re_split_from U delimiter s lst = [drop lst s]"
  by (subst re_split_from.simps) simp

lemma split_from_some:
  "re_search U delimiter s lst = Some (i, e) \<Longrightarrow> lst < e \<Longrightarrow> e \<le> length s \<Longrightarrow>
   re_split_from U delimiter s lst = slice s lst i # re_split_from U delimiter s e"
  by (subst re_split_from.simps) simp

lemma first_separator:
  assumes "\<exists>p. lst \<le> p \<and> sep_len U s p \<noteq> None"
  shows "\<exists>j l. lst \<le> j \<and> sep_len U s j = Some l \<and>
           (\<forall>p. lst \<le> p \<and> p < j \<longrightarrow> sep_len U s p = None)"
proof -
  let ?P = "\<lambda>p. lst \<le> p \<and> sep_len U s p \<noteq> None"
  define j where "j = (LEAST p. ?P p)"
  have pj: "?P j" unfolding j_def using assms by (rule LeastI_ex)
  have least: "\<not> ?P p" if "p < j" for p
    using that not_less_Least [of p ?P] by (simp add: j_def)
  from pj obtain l where "sep_len U s j = Some l" by auto
  moreover have "\<forall>p. lst \<le> p \<and> p < j \<longrightarrow> sep_len U s p = None"
    using least by auto
  ultimately show ?thesis using pj by blast
qed

lemma pieces_agree:
  "start \<le> lst \<Longrightarrow> lst \<le> length s \<Longrightarrow>
   (\<forall>p. start \<le> p \<and> p < lst \<longrightarrow> is_space (s ! p)) \<Longrightarrow>
   map py_strip (re_split_from U delimiter s lst) = map py_strip (spec_pieces U s start lst)"
proof (induction n \<equiv> "length s - lst" arbitrary: start lst rule: less_induct)
  case less
  have lead: "\<forall>c\<in>set (slice s start lst). is_space c"
    using less.prems(2,3) by (intro slice_spaces) auto
  show ?case
  proof (cases "\<exists>p. lst \<le> p \<and> sep_len U s p \<noteq> None")
    case False
    then have none: "sep_len U s p = None" if "lst \<le> p" for p using that by auto
    have "re_split_from U delimiter s lst = [drop lst s]"
      using none by (intro split_from_none search_none)
    moreover have "spec_pieces U s start lst = [slice s start (length s)]"
      using none by (intro pieces_none)
    moreover have "slice s start (length s) = slice s start lst @ slice s lst (length s) @ []"
      using less.prems(1,2) slice_split [of start lst "length s" s] by simp
    then have "py_strip (slice s start (length s)) = py_strip (slice s lst (length s))"
      using lead strip_pad [of "slice s start lst" "[]" "slice s lst (length s)"] by simp
    ultimately show ?thesis by (simp add: slice_to_end)
  next
    case True
    from first_separator [OF True] obtain j l where j12: "lst \<le> j" "sep_len U s j = Some l"
      and j3: "\<forall>p. lst \<le> p \<and> p < j \<longrightarrow> sep_len U s p = None" by blast
    have j: "lst \<le> j" "sep_len U s j = Some l"
      "\<And>p. lst \<le> p \<Longrightarrow> p < j \<Longrightarrow> sep_len U s p = None"
      using j12 j3 by simp_all
    have bound: "0 < l" "j + l \<le> length s" using sep_len_bound [OF j(2)] by simp_all
    let ?e = "j + l + space_run s (j + l)"
    have e_len: "?e \<le> length s" using bound(2) by (rule space_run_within)
    from search_some [OF j(1,2) j(3)] obtain i where
      i: "re_search U delimiter s lst = Some (i, ?e)" "lst \<le> i" "i \<le> j"
      "\<forall>p. i \<le> p \<and> p < j \<longrightarrow> is_space (s ! p)" by blast
    have lst_e: "lst < ?e" using j(1) bound(1) by simp
    have src: "re_split_from U delimiter s lst = slice s lst i # re_split_from U delimiter s ?e"
      using i(1) lst_e e_len by (rule split_from_some)
    have spc: "spec_pieces U s start lst = slice s start j # spec_pieces U s (j + l) (j + l)"
      using j by (intro pieces_some)
    have trail: "\<forall>c\<in>set (slice s i j). is_space c"
      using i(4) bound(2) by (intro slice_spaces) auto
    have "slice s start j = slice s start lst @ slice s lst i @ slice s i j"
      using less.prems(1) i(2,3) slice_split [of start lst j s] slice_split [of lst i j s] by simp
    then have head: "py_strip (slice s start j) = py_strip (slice s lst i)"
      using lead trail by (simp add: strip_pad)
    have gap: "\<forall>p. j + l \<le> p \<and> p < ?e \<longrightarrow> is_space (s ! p)"
    proof (intro allI impI)
      fix p assume p: "j + l \<le> p \<and> p < ?e"
      then have "p - (j + l) < space_run s (j + l)" by arith
      then have "is_space (s ! (j + l + (p - (j + l))))" by (rule space_run_spaces)
      moreover have "j + l + (p - (j + l)) = p" using p by arith
      ultimately show "is_space (s ! p)" by simp
    qed
    have no_sep: "sep_len U s p = None" if "j + l \<le> p" "p < ?e" for p
      using gap that by (intro sep_len_space) simp
    have skip: "spec_pieces U s (j + l) (j + l) = spec_pieces U s (j + l) ?e"
    proof (cases "\<exists>p. ?e \<le> p \<and> sep_len U s p \<noteq> None")
      case False
      then have a: "sep_len U s p = None" if "?e \<le> p" for p using that by auto
      have b: "sep_len U s p = None" if "j + l \<le> p" for p
        using that no_sep [of p] a [of p] by (cases "p < ?e") auto
      show ?thesis
        using pieces_none [of "j + l" U s "j + l", OF b] pieces_none [of ?e U s "j + l", OF a]
        by simp
    next
      case True
      from first_separator [OF True] obtain j' l' where k12: "?e \<le> j'" "sep_len U s j' = Some l'"
        and k3: "\<forall>p. ?e \<le> p \<and> p < j' \<longrightarrow> sep_len U s p = None" by blast
      have j': "?e \<le> j'" "sep_len U s j' = Some l'"
        "\<And>p. ?e \<le> p \<Longrightarrow> p < j' \<Longrightarrow> sep_len U s p = None"
        using k12 k3 by simp_all
      have b: "sep_len U s p = None" if "j + l \<le> p" "p < j'" for p
        using that no_sep [of p] j'(3) [of p] by (cases "p < ?e") auto
      have "j + l \<le> j'" using j'(1) by simp
      from pieces_some [OF this j'(2) b] pieces_some [OF j'(1,2) j'(3)]
      show ?thesis by simp
    qed
    have "map py_strip (re_split_from U delimiter s ?e) =
          map py_strip (spec_pieces U s (j + l) ?e)"
    proof (rule less.hyps)
      show "length s - ?e < length s - lst" using lst_e e_len by simp
      show "j + l \<le> ?e" by simp
      show "?e \<le> length s" by (rule e_len)
      show "\<forall>p. j + l \<le> p \<and> p < ?e \<longrightarrow> is_space (s ! p)" by (rule gap)
    qed
    with src spc head skip show ?thesis by simp
  qed
qed

lemma normalize_amp_replace:
  "replace_char 8523 38 (replace_char 65286 38 (replace_char 65120 38 raw)) = normalize_amp raw"
  by (simp add: replace_char_def normalize_amp_def)

lemma split_refines:
  "split_messages U raw = spec_split_messages U raw"
proof -
  let ?s = "normalize_amp raw"
  have "map py_strip (re_split_from U delimiter ?s 0) = map py_strip (spec_pieces U ?s 0 0)"
    by (rule pieces_agree) simp_all
  moreover have "map py_strip (filter (\<lambda>p. py_strip p \<noteq> []) xs) =
      filter (\<lambda>p. p \<noteq> []) (map py_strip xs)" for xs
    by (induction xs) simp_all
  ultimately show ?thesis
    by (simp add: split_messages_def spec_split_messages_def re_split_def normalize_amp_replace
        Let_def)
qed

lemmas split_run = split_eval re_search.simps re_split_from.simps str_def py_strip_def is_space_def

lemma payload_empty:
  assumes "effective_user upd = Some OWNER_TG_ID" and "message upd = Some m"
    and "step st = Some Payload" and "read_messages U e m files = (files1, Inr [])"
  shows "text_router U e upd (st, files) = ((st, files1), Reply NoMessages)"
  using assms by (simp add: text_router_def is_owner_def Let_def)

text \<open>
  C2. For every input the split of the source is the split the specification describes:
  the ampersand variants become \<open>&\<close>, the text is cut at \<open>&\<close> and at the whole word
  \<open>and\<close> in any letter case with the white space around them, every piece is trimmed
  and the empty pieces are dropped. So \<open>a & b and c\<close> gives \<open>a\<close>, \<open>b\<close>, \<open>c\<close>; the
  variants separate like \<open>&\<close>; \<open>AND\<close> separates and the letters inside \<open>band\<close> do
  not; the empty string and three blanks give no message. At the payload step an input
  that gives no message is answered with the no-messages reply, the state unchanged.
\<close>

theorem split_messages_spec:
  "split_messages U raw = spec_split_messages U raw \<and>
   split_messages U (str ''a & b and c'') = [str ''a'', str ''b'', str ''c''] \<and>
   split_messages U [97, 65120, 98, 65286, 99, 8523, 100] = [[97], [98], [99], [100]] \<and>
   split_messages U (str ''x AND y'') = [str ''x'', str ''y''] \<and>
   split_messages U (str ''band'') = [str ''band''] \<and>
   split_messages U (str '''') = [] \<and>
   split_messages U (str ''   '') = [] \<and>
   (effective_user upd = Some OWNER_TG_ID \<and> message upd = Some m \<and>
    step st = Some Payload \<and> read_messages U e m files = (files1, Inr []) \<longrightarrow>
      text_router U e upd (st, files) = ((st, files1), Reply NoMessages))"
proof -
  have "split_messages U (str ''a & b and c'') = [str ''a'', str ''b'', str ''c'']"
    by (simp add: split_run)
  moreover have "split_messages U [97, 65120, 98, 65286, 99, 8523, 100] = [[97], [98], [99], [100]]"
    by (simp add: split_run)
  moreover have "split_messages U (str ''x AND y'') = [str ''x'', str ''y'']"
    by (simp add: split_run)
  moreover have "split_messages U (str ''band'') = [str ''band'']"
    by (simp add: split_run)
  moreover have "split_messages U (str '''') = []"
    by (simp add: split_run)
  moreover have "split_messages U (str ''   '') = []"
    by (simp add: split_run)
  ultimately show ?thesis using split_refines payload_empty by blast
qed

theorem split_messages_spec_witness:
  "effective_user (says OWNER_TG_ID (str ''   '')) = Some OWNER_TG_ID \<and>
   message (says OWNER_TG_ID (str ''   '')) =
     Some \<lparr>msg_text = Some (str ''   ''), document = None\<rparr> \<and>
   step (at_step Payload) = Some Payload \<and>
   read_messages ascii_only env_ok \<lparr>msg_text = Some (str ''   ''), document = None\<rparr> Map.empty
     = (Map.empty, Inr []) \<and>
   text_router ascii_only env_ok (says OWNER_TG_ID (str ''   '')) (at_step Payload, Map.empty)
     = ((at_step Payload, Map.empty), Reply NoMessages) \<and>
   spec_split_messages ascii_only (str ''a & b and c'') = [str ''a'', str ''b'', str ''c'']"
proof -
  note t = split_messages_spec [of ascii_only "str ''a & b and c''"
      "says OWNER_TG_ID (str ''   '')" "\<lparr>msg_text = Some (str ''   ''), document = None\<rparr>"
      "at_step Payload" env_ok Map.empty Map.empty]
  note refines = t [THEN conjunct1]
  note example = t [THEN conjunct2, THEN conjunct1]
  note blank = t [THEN conjunct2, THEN conjunct2, THEN conjunct2, THEN conjunct2,
      THEN conjunct2, THEN conjunct2, THEN conjunct1]
  note rejects = t [THEN conjunct2, THEN conjunct2, THEN conjunct2, THEN conjunct2,
      THEN conjunct2, THEN conjunct2, THEN conjunct2]
  have u: "effective_user (says OWNER_TG_ID (str ''   '')) = Some OWNER_TG_ID"
    "message (says OWNER_TG_ID (str ''   '')) =
       Some \<lparr>msg_text = Some (str ''   ''), document = None\<rparr>"
    "step (at_step Payload) = Some Payload"
    by (simp_all add: says_def at_step_def)
  have h: "read_messages ascii_only env_ok \<lparr>msg_text = Some (str ''   ''), document = None\<rparr>
      Map.empty = (Map.empty, Inr [])"
    by (simp add: read_messages_def text_or_empty_def blank)
  have "effective_user (says OWNER_TG_ID (str ''   '')) = Some OWNER_TG_ID \<and>
      message (says OWNER_TG_ID (str ''   '')) =
        Some \<lparr>msg_text = Some (str ''   ''), document = None\<rparr> \<and>
      step (at_step Payload) = Some Payload \<and>
      read_messages ascii_only env_ok \<lparr>msg_text = Some (str ''   ''), document = None\<rparr>
        Map.empty = (Map.empty, Inr [])"
    using u h by (intro conjI)
  with rejects have r: "text_router ascii_only env_ok (says OWNER_TG_ID (str ''   ''))
      (at_step Payload, Map.empty) = ((at_step Payload, Map.empty), Reply NoMessages)"
    by (rule mp)
  have p: "spec_split_messages ascii_only (str ''a & b and c'') = [str ''a'', str ''b'', str ''c'']"
    by (simp only: refines [symmetric] example)
  from u h r p show ?thesis by simp
qed

end
